theory Spec2Isabelle
  imports Complex_Main
begin

unbundle bit_operations_syntax

section \<open>Numbers, errors and outcomes\<close>

text \<open>
  The program is TypeScript; every coefficient is a \<open>number\<close>. The embedding takes
  a number to be a \<^typ>\<open>real\<close>: the program only adds, subtracts, multiplies, halves and
  floors integers of small magnitude, where double arithmetic is exact. Non-integers do
  occur (the encryption scales by \<open>q / 2\<close>), which is why the type is not \<^typ>\<open>int\<close>.
  The values \<open>NaN\<close> and \<open>Infinity\<close> have no counterpart: a modulus of \<open>0\<close> is outside
  the embedding, and the theorems about modular reduction assume a positive modulus.

  The remainder operator \<open>%\<close> truncates towards zero, so its result has the sign of the
  dividend.
\<close>

definition jsTrunc :: "real \<Rightarrow> int" where
  "jsTrunc x = (if x < 0 then - \<lfloor>- x\<rfloor> else \<lfloor>x\<rfloor>)"

definition jsRemainder :: "real \<Rightarrow> real \<Rightarrow> real" where
  "jsRemainder a b = a - b * of_int (jsTrunc (a / b))"

text \<open>
  The bitwise operators first convert their operands to 32-bit signed integers.
\<close>

definition toInt32 :: "real \<Rightarrow> int" where
  "toInt32 x = signed_take_bit 31 (jsTrunc x)"

text \<open>
  Two errors can be raised: the \<open>Error\<close> thrown by the dimension checks of the matrix
  operations, and the \<open>TypeError\<close> of the runtime when a property of \<open>undefined\<close> is read
  (an index past the end of an array yields \<open>undefined\<close>). A call returns, throws, or
  does not return at all (the division loop need not terminate).
\<close>

datatype error = ShapeMismatch | TypeError

datatype 'a outcome = Returns 'a | Throws error | Diverges

fun andThen :: "'a outcome \<Rightarrow> ('a \<Rightarrow> 'b outcome) \<Rightarrow> 'b outcome" where
  "andThen (Returns x) f = f x"
| "andThen (Throws e) f = Throws e"
| "andThen Diverges f = Diverges"

fun mapOutcome :: "('a \<Rightarrow> 'b outcome) \<Rightarrow> 'a list \<Rightarrow> 'b list outcome" where
  "mapOutcome f [] = Returns []"
| "mapOutcome f (x # xs) =
     andThen (f x) (\<lambda>y. andThen (mapOutcome f xs) (\<lambda>ys. Returns (y # ys)))"

section \<open>Defined types\<close>

text \<open>
  A \<open>Polynomial\<close> is the object \<open>{coefficients: number[]}\<close>, modelled as its one field.
  The fields of the other objects carry a prefix, since \<open>t\<close>, \<open>A\<close>, \<open>s\<close>, \<open>u\<close> and \<open>v\<close>
  are needed as variables.
\<close>

type_synonym Polynomial = "real list"

type_synonym PolynomialMatrix = "Polynomial list list"

record EncryptedBlock =
  ebU :: PolynomialMatrix
  ebV :: PolynomialMatrix

record CrystalsKyberPublicKey =
  pkT :: PolynomialMatrix
  pkA :: PolynomialMatrix

record CrystalsKyberPrivateKey =
  skS :: PolynomialMatrix

record CrystalsKyberKeys =
  pKey :: CrystalsKyberPublicKey
  sKey :: CrystalsKyberPrivateKey

section \<open>Math operations\<close>

definition reduceToBinary :: "real \<Rightarrow> real \<Rightarrow> real \<Rightarrow> real" where
  "reduceToBinary coeff minValue maxValue =
     (if \<bar>coeff\<bar> > of_int \<lfloor>maxValue / 2\<rfloor> then 1 else 0)"

definition symmetricValueModuloQ :: "real \<Rightarrow> real \<Rightarrow> real" where
  "symmetricValueModuloQ asymmetricValueModuloQ moduloQ =
     (let r = jsRemainder asymmetricValueModuloQ moduloQ in
      if r < 0 then (if r < - of_int \<lfloor>moduloQ / 2\<rfloor> then r + moduloQ else r)
      else (if r > of_int \<lfloor>moduloQ / 2\<rfloor> then r - moduloQ else r))"

section \<open>Polynomial operations\<close>

subsection \<open>Division by the modulus polynomial\<close>

text \<open>
  The inner \<open>while\<close> of \<open>dividePolynomials\<close> pops the trailing zero coefficients.
\<close>

function popTrailingZeros :: "real list \<Rightarrow> real list" where
  "popTrailingZeros cs =
     (if length cs > 0 \<and> last cs = 0 then popTrailingZeros (butlast cs) else cs)"
  by pat_completeness auto
termination
  by (relation "measure length") auto

declare popTrailingZeros.simps [simp del]

text \<open>
  One pass of the \<open>for\<close> loop: the coefficient at \<open>degreeDiff + i\<close> loses the centred
  product and is centred again.
\<close>

definition subtractStep ::
  "Polynomial \<Rightarrow> real \<Rightarrow> real \<Rightarrow> nat \<Rightarrow> nat \<Rightarrow> real list \<Rightarrow> real list" where
  "subtractStep dividingPolynomial leadingCoeff moduloQ degreeDiff i cs =
     (let lowered = cs ! (degreeDiff + i)
            - symmetricValueModuloQ (dividingPolynomial ! i * leadingCoeff) moduloQ
      in cs[degreeDiff + i := symmetricValueModuloQ lowered moduloQ])"

text \<open>
  The outer \<open>while\<close>. It runs as long as the dividend is at least as long as the
  divisor, and nothing forces the dividend to shrink: with an empty divisor, or with a
  leading coefficient that the step does not cancel, the source loops forever, which is
  the value \<open>None\<close> here. A divisor whose leading coefficient is \<open>0\<close> makes the quotient
  \<open>NaN\<close> or infinite in the source; every coefficient the pass touches becomes \<open>NaN\<close>,
  \<open>NaN\<close> is never equal to \<open>0\<close>, so nothing is popped and the loop does not end.
\<close>

partial_function (option) divideLoop ::
  "real list \<Rightarrow> Polynomial \<Rightarrow> real \<Rightarrow> real list option" where
  "divideLoop cs dividingPolynomial moduloQ =
     (if length cs \<ge> length dividingPolynomial then
        (if dividingPolynomial \<noteq> [] \<and> last dividingPolynomial = 0 then None
         else
           (let degreeDiff = length cs - length dividingPolynomial;
                leadingCoeff = of_int \<lfloor>last cs / last dividingPolynomial\<rfloor>;
                lowered = fold (subtractStep dividingPolynomial leadingCoeff moduloQ degreeDiff)
                            [0..<length dividingPolynomial] cs
            in divideLoop (popTrailingZeros lowered) dividingPolynomial moduloQ))
      else Some cs)"

declare divideLoop.simps [code]

definition dividePolynomials :: "Polynomial \<Rightarrow> Polynomial \<Rightarrow> real \<Rightarrow> Polynomial outcome" where
  "dividePolynomials dividend dividingPolynomial moduloQ =
     (case divideLoop dividend dividingPolynomial moduloQ of
        None \<Rightarrow> Diverges
      | Some remainder \<Rightarrow> Returns remainder)"

subsection \<open>The message codec\<close>

text \<open>
  Both encoders push the bits of a byte from bit 7 down to bit 0, each as
  \<open>(byte >> bit) & 1\<close>.
\<close>

definition bitOf :: "int \<Rightarrow> nat \<Rightarrow> real" where
  "bitOf byte bitIndex = of_int (drop_bit bitIndex byte AND 1)"

definition addPaddingToPolynomialBlocks :: "Polynomial \<Rightarrow> nat \<Rightarrow> Polynomial list" where
  "addPaddingToPolynomialBlocks polynomial blockSize =
     (let paddingByte = 0x80;
          (blocks0, currentBlock0) =
             (if length polynomial = blockSize then ([polynomial], []) else ([], polynomial));
          currentBlock1 = currentBlock0 @ map (bitOf paddingByte) [7, 6, 5, 4, 3, 2, 1, 0];
          (blocks1, currentBlock2) =
             (if length currentBlock1 = blockSize then (blocks0 @ [currentBlock1], [])
              else (blocks0, currentBlock1));
          currentBlock3 = currentBlock2 @ replicate (blockSize - length currentBlock2) 0
      in blocks1 @ [currentBlock3])"

function removePaddingLoop :: "real list \<Rightarrow> real list" where
  "removePaddingLoop cs =
     (if length cs > 0 then
        (if last cs = 0 then removePaddingLoop (butlast cs)
         else if last cs = 1 then butlast cs
         else cs)
      else cs)"
  by pat_completeness auto
termination
  by (relation "measure length") auto

declare removePaddingLoop.simps [simp del]

definition removePaddingFromPolynomialBlocks :: "Polynomial \<Rightarrow> Polynomial" where
  "removePaddingFromPolynomialBlocks polynomial = removePaddingLoop polynomial"

text \<open>
  The text is a \<^typ>\<open>string\<close>: the source assumes ASCII text, 8 bits per character, and
  reads each character's code with \<open>charCodeAt\<close>. The state of the double loop is the
  list of finished blocks and the block being filled.
\<close>

fun textBitStep ::
  "nat \<Rightarrow> int \<Rightarrow> nat \<Rightarrow> Polynomial list \<times> real list \<Rightarrow> Polynomial list \<times> real list" where
  "textBitStep blockSize byte bitIndex (blocks, currentBlock) =
     (if length currentBlock = blockSize
      then (blocks @ [currentBlock], [bitOf byte bitIndex])
      else (blocks, currentBlock @ [bitOf byte bitIndex]))"

definition textByteStep ::
  "nat \<Rightarrow> int \<Rightarrow> Polynomial list \<times> real list \<Rightarrow> Polynomial list \<times> real list" where
  "textByteStep blockSize byte state =
     fold (textBitStep blockSize byte) [7, 6, 5, 4, 3, 2, 1, 0] state"

definition textToPolynomialBlocks :: "string \<Rightarrow> nat \<Rightarrow> Polynomial list" where
  "textToPolynomialBlocks message blockSize =
     (let textBytes = map of_char message;
          (blocks, currentBlock) = fold (textByteStep blockSize) textBytes ([], [])
      in blocks @ addPaddingToPolynomialBlocks currentBlock blockSize)"

text \<open>
  The inner loop of \<open>polynomialBlocksToText\<close> over one block, from index \<open>i\<close>:
  \<open>currentByte = (currentByte << 1) | Number(coefficient)\<close>, and the byte is pushed
  and reset whenever \<open>(i + 1) % 8 === 0\<close>. What is left of \<open>currentByte\<close> at the end
  of a block is dropped: the next block starts again from \<open>0\<close>.
\<close>

fun blockBytes :: "real list \<Rightarrow> nat \<Rightarrow> int \<Rightarrow> int list \<Rightarrow> int list" where
  "blockBytes [] i currentByte textBytes = textBytes"
| "blockBytes (c # cs) i currentByte textBytes =
     (let shifted = signed_take_bit 31 (push_bit 1 currentByte) OR toInt32 c
      in if (i + 1) mod 8 = 0 then blockBytes cs (i + 1) 0 (textBytes @ [shifted])
         else blockBytes cs (i + 1) shifted textBytes)"

text \<open>
  \<open>String.fromCharCode\<close> keeps the low 16 bits of each byte value and \<^const>\<open>char_of\<close> the
  low 8; they agree below 256, which is all that a block of bits produces.
\<close>

definition polynomialBlocksToText :: "Polynomial list \<Rightarrow> nat \<Rightarrow> string" where
  "polynomialBlocksToText blocks blockSize =
     map char_of (fold (\<lambda>block textBytes. blockBytes block 0 0 textBytes) blocks [])"

section \<open>Matrix operations\<close>

text \<open>
  The random source is an explicit input: \<open>rnd i\<close> is the value of the \<open>i\<close>-th call of
  \<open>Math.random()\<close>, a number in \<open>[0, 1)\<close>, and \<open>pos\<close> counts the calls made so far.
  The matrix is filled row by row, each polynomial from degree 0 upwards.
\<close>

definition generateRandomMatrix ::
  "nat \<Rightarrow> nat \<Rightarrow> nat \<Rightarrow> real \<Rightarrow> (nat \<Rightarrow> real) \<Rightarrow> nat \<Rightarrow> PolynomialMatrix \<times> nat" where
  "generateRandomMatrix rows cols n moduloQ rnd pos =
     (map (\<lambda>i. map (\<lambda>j. map (\<lambda>c.
          symmetricValueModuloQ (of_int \<lfloor>rnd (pos + (i * cols + j) * n + c) * moduloQ\<rfloor>) moduloQ)
        [0..<n]) [0..<cols]) [0..<rows],
      pos + rows * cols * n)"

text \<open>\<open>coefficients[k] || 0\<close>: a missing coefficient counts as zero.\<close>

definition coefficientOrZero :: "real list \<Rightarrow> nat \<Rightarrow> real" where
  "coefficientOrZero cs k = (if k < length cs then cs ! k else 0)"

definition addCoefficients :: "Polynomial \<Rightarrow> Polynomial \<Rightarrow> real \<Rightarrow> real list" where
  "addCoefficients polyA polyB moduloQ =
     map (\<lambda>k. symmetricValueModuloQ (coefficientOrZero polyA k + coefficientOrZero polyB k) moduloQ)
       [0..<max (length polyA) (length polyB)]"

definition subtractCoefficients :: "Polynomial \<Rightarrow> Polynomial \<Rightarrow> real \<Rightarrow> real list" where
  "subtractCoefficients polyA polyB moduloQ =
     map (\<lambda>k. symmetricValueModuloQ (coefficientOrZero polyA k - coefficientOrZero polyB k) moduloQ)
       [0..<max (length polyA) (length polyB)]"

text \<open>
  The dimension check reads the lengths of the two arrays and of their first rows; the
  first row of an empty array is \<open>undefined\<close>. Then every entry \<open>A[i][j]\<close> is combined
  with \<open>B[i][j]\<close>, in row order; an entry missing from \<open>B\<close> is \<open>undefined\<close>.
\<close>

definition addMatrices ::
  "PolynomialMatrix \<Rightarrow> PolynomialMatrix \<Rightarrow> real \<Rightarrow> Polynomial \<Rightarrow> PolynomialMatrix outcome" where
  "addMatrices A B moduloQ modulusPolynomial =
     (if length A \<noteq> length B then Throws ShapeMismatch
      else if A = [] then Throws TypeError
      else if length (A ! 0) \<noteq> length (B ! 0) then Throws ShapeMismatch
      else mapOutcome (\<lambda>i. mapOutcome (\<lambda>j.
             if j < length (B ! i)
             then dividePolynomials (addCoefficients (A ! i ! j) (B ! i ! j) moduloQ)
                    modulusPolynomial moduloQ
             else Throws TypeError)
           [0..<length (A ! i)]) [0..<length A])"

definition subtractMatrices ::
  "PolynomialMatrix \<Rightarrow> PolynomialMatrix \<Rightarrow> real \<Rightarrow> Polynomial \<Rightarrow> PolynomialMatrix outcome" where
  "subtractMatrices A B moduloQ modulusPolynomial =
     (if length A \<noteq> length B then Throws ShapeMismatch
      else if A = [] then Throws TypeError
      else if length (A ! 0) \<noteq> length (B ! 0) then Throws ShapeMismatch
      else mapOutcome (\<lambda>i. mapOutcome (\<lambda>j.
             if j < length (B ! i)
             then dividePolynomials (subtractCoefficients (A ! i ! j) (B ! i ! j) moduloQ)
                    modulusPolynomial moduloQ
             else Throws TypeError)
           [0..<length (A ! i)]) [0..<length A])"

text \<open>
  The schoolbook product of two coefficient arrays: an array of
  \<open>length polyA + length polyB - 1\<close> zeros (none when both are empty), into which
  every \<open>coeffA * coeffB\<close> is added at index \<open>indexA + indexB\<close>.
\<close>

definition productCoefficients :: "Polynomial \<Rightarrow> Polynomial \<Rightarrow> real list" where
  "productCoefficients polyA polyB =
     fold (\<lambda>indexA. fold (\<lambda>indexB pc.
            pc[indexA + indexB := pc ! (indexA + indexB) + polyA ! indexA * polyB ! indexB])
          [0..<length polyB])
       [0..<length polyA] (replicate (length polyA + length polyB - 1) 0)"

text \<open>
  The loop over \<open>k\<close> for one entry of the product: \<open>A[i][k]\<close> and \<open>B[k][j]\<close> are
  multiplied and the product is added, centred, into the running entry.
\<close>

fun multiplyEntry ::
  "Polynomial list \<Rightarrow> PolynomialMatrix \<Rightarrow> nat \<Rightarrow> real \<Rightarrow> nat list \<Rightarrow> Polynomial \<Rightarrow> Polynomial outcome" where
  "multiplyEntry rowA B j moduloQ [] current = Returns current"
| "multiplyEntry rowA B j moduloQ (k # ks) current =
     (if k < length rowA \<and> j < length (B ! k)
      then multiplyEntry rowA B j moduloQ ks
             (addCoefficients current (productCoefficients (rowA ! k) (B ! k ! j)) moduloQ)
      else Throws TypeError)"

definition multiplyMatrices ::
  "PolynomialMatrix \<Rightarrow> PolynomialMatrix \<Rightarrow> real \<Rightarrow> Polynomial \<Rightarrow> PolynomialMatrix outcome" where
  "multiplyMatrices A B moduloQ modulusPolynomial =
     (if A = [] then Throws TypeError
      else if length (A ! 0) \<noteq> length B then Throws ShapeMismatch
      else if B = [] then Throws TypeError
      else mapOutcome (\<lambda>i. mapOutcome (\<lambda>j.
             andThen (multiplyEntry (A ! i) B j moduloQ [0..<length B] [])
               (\<lambda>summed. dividePolynomials summed modulusPolynomial moduloQ))
           [0..<length (B ! 0)]) [0..<length A])"

text \<open>
  \<open>transposeMatrix\<close> copies \<open>matrix[i][j]\<close> for every row \<open>i\<close> and every column \<open>j\<close> of
  the first row. Where a row is shorter than the first one the source copies
  \<open>undefined\<close>, and the \<open>TypeError\<close> surfaces when \<open>multiplyMatrices\<close> reads that entry;
  the embedding has no undefined polynomial and raises it here.
\<close>

definition transposeMatrix :: "PolynomialMatrix \<Rightarrow> PolynomialMatrix outcome" where
  "transposeMatrix matrix =
     (if matrix = [] then Throws TypeError
      else
        (let rows = length matrix; cols = length (matrix ! 0)
         in if list_ex (\<lambda>row. length row < cols) matrix then Throws TypeError
            else Returns (map (\<lambda>j. map (\<lambda>i. matrix ! i ! j) [0..<rows]) [0..<cols])))"

section \<open>Parameters\<close>

text \<open>
  The source keeps \<open>q\<close>, \<open>n\<close>, \<open>k\<close>, \<open>n1\<close> and \<open>n2\<close> in global variables, set once;
  here they are a record passed to every cryptographic function.
\<close>

record KyberParameters =
  paramQ :: real
  paramN :: nat
  paramK :: nat
  paramN1 :: real
  paramN2 :: real

definition kyber1024 :: KyberParameters where
  "kyber1024 = \<lparr>paramQ = 3329, paramN = 256, paramK = 4, paramN1 = 2, paramN2 = 2\<rparr>"

definition modulusPolynomial :: "KyberParameters \<Rightarrow> Polynomial" where
  "modulusPolynomial P = ((replicate (paramN P + 1) 0)[0 := 1])[paramN P := 1]"

section \<open>Cryptographic functions\<close>

definition crystalsKyber_generateKeys ::
  "KyberParameters \<Rightarrow> (nat \<Rightarrow> real) \<Rightarrow> nat \<Rightarrow> (CrystalsKyberKeys \<times> nat) outcome" where
  "crystalsKyber_generateKeys P rnd pos =
     (let (s, pos1) = generateRandomMatrix (paramK P) 1 (paramN P) (paramN1 P * 2 + 1) rnd pos;
          (e, pos2) = generateRandomMatrix (paramK P) 1 (paramN P) (paramN2 P * 2 + 1) rnd pos1;
          (A, pos3) = generateRandomMatrix (paramK P) (paramK P) (paramN P) (paramQ P) rnd pos2
      in andThen (multiplyMatrices A s (paramQ P) (modulusPolynomial P)) (\<lambda>As.
         andThen (addMatrices As e (paramQ P) (modulusPolynomial P)) (\<lambda>t.
         Returns (\<lparr>pKey = \<lparr>pkT = t, pkA = A\<rparr>, sKey = \<lparr>skS = s\<rparr>\<rparr>, pos3))))"

definition msgScaled :: "KyberParameters \<Rightarrow> Polynomial \<Rightarrow> Polynomial" where
  "msgScaled P msg = map (\<lambda>coeff. coeff * (paramQ P / 2)) msg"

definition crystalsKyber_encrypt ::
  "KyberParameters \<Rightarrow> Polynomial \<Rightarrow> CrystalsKyberPublicKey \<Rightarrow> (nat \<Rightarrow> real) \<Rightarrow> nat
     \<Rightarrow> (EncryptedBlock \<times> nat) outcome" where
  "crystalsKyber_encrypt P msg publicKey rnd pos =
     (let (encrypt_r, pos1) =
            generateRandomMatrix (paramK P) 1 (paramN P) (paramN1 P * 2 + 1) rnd pos;
          (e1, pos2) = generateRandomMatrix (paramK P) 1 (paramN P) (paramN2 P * 2 + 1) rnd pos1;
          (e2, pos3) = generateRandomMatrix 1 1 (paramN P) (paramN2 P * 2 + 1) rnd pos2;
          matrixMsgScaled = [[msgScaled P msg]]
      in andThen (transposeMatrix (pkA publicKey)) (\<lambda>At.
         andThen (multiplyMatrices At encrypt_r (paramQ P) (modulusPolynomial P)) (\<lambda>Ar.
         andThen (addMatrices Ar e1 (paramQ P) (modulusPolynomial P)) (\<lambda>u.
         andThen (transposeMatrix (pkT publicKey)) (\<lambda>tt.
         andThen (multiplyMatrices tt encrypt_r (paramQ P) (modulusPolynomial P)) (\<lambda>tr.
         andThen (addMatrices tr e2 (paramQ P) (modulusPolynomial P)) (\<lambda>tre.
         andThen (addMatrices tre matrixMsgScaled (paramQ P) (modulusPolynomial P)) (\<lambda>v.
         Returns (\<lparr>ebU = u, ebV = v\<rparr>, pos3)))))))))"

definition crystalsKyber_decrypt ::
  "KyberParameters \<Rightarrow> EncryptedBlock \<Rightarrow> CrystalsKyberPrivateKey \<Rightarrow> Polynomial outcome" where
  "crystalsKyber_decrypt P eb privateKey =
     andThen (transposeMatrix (skS privateKey)) (\<lambda>st.
     andThen (multiplyMatrices st (ebU eb) (paramQ P) (modulusPolynomial P)) (\<lambda>su.
     andThen (subtractMatrices (ebV eb) su (paramQ P) (modulusPolynomial P)) (\<lambda>msg_decrypted.
       if msg_decrypted = [] \<or> msg_decrypted ! 0 = [] then Throws TypeError
       else Returns (map (\<lambda>coeff. reduceToBinary coeff 0 (paramQ P / 2))
                      (msg_decrypted ! 0 ! 0)))))"

fun encryptBlocks ::
  "KyberParameters \<Rightarrow> CrystalsKyberPublicKey \<Rightarrow> (nat \<Rightarrow> real) \<Rightarrow> Polynomial list \<Rightarrow> nat
     \<Rightarrow> (EncryptedBlock list \<times> nat) outcome" where
  "encryptBlocks P publicKey rnd [] pos = Returns ([], pos)"
| "encryptBlocks P publicKey rnd (block # blocks) pos =
     andThen (crystalsKyber_encrypt P block publicKey rnd pos) (\<lambda>(ct, pos1).
     andThen (encryptBlocks P publicKey rnd blocks pos1) (\<lambda>(cts, pos2).
     Returns (ct # cts, pos2)))"

definition crystalsKyber_encryptMessage ::
  "KyberParameters \<Rightarrow> string \<Rightarrow> CrystalsKyberPublicKey \<Rightarrow> (nat \<Rightarrow> real) \<Rightarrow> nat
     \<Rightarrow> (EncryptedBlock list \<times> nat) outcome" where
  "crystalsKyber_encryptMessage P message publicKey rnd pos =
     encryptBlocks P publicKey rnd (textToPolynomialBlocks message (paramN P)) pos"

text \<open>The loop that looks for a non-zero coefficient, leaving at the first one.\<close>

fun allZeroes :: "real list \<Rightarrow> bool" where
  "allZeroes [] = True"
| "allZeroes (c # cs) = (if c \<noteq> 0 then False else allZeroes cs)"

text \<open>
  \<open>crystalsKyber_decryptMessage\<close> reads \<open>polynomialsDecrypted[length - 1].coefficients\<close>
  without a check; with no block at all that element is \<open>undefined\<close>.
\<close>

definition crystalsKyber_decryptMessage ::
  "KyberParameters \<Rightarrow> EncryptedBlock list \<Rightarrow> CrystalsKyberPrivateKey \<Rightarrow> string outcome" where
  "crystalsKyber_decryptMessage P encryptedMsg privateKey =
     andThen (mapOutcome (\<lambda>eb. crystalsKyber_decrypt P eb privateKey) encryptedMsg)
       (\<lambda>polynomialsDecrypted.
          if polynomialsDecrypted = [] then Throws TypeError
          else
            (let lastPolynomialCoefficients =
                   polynomialsDecrypted ! (length polynomialsDecrypted - 1);
                 kept = (if allZeroes lastPolynomialCoefficients
                         then butlast polynomialsDecrypted else polynomialsDecrypted);
                 polynomialsDecryptedWithoutPadding =
                   map (\<lambda>i. if i = length kept - 1
                             then removePaddingFromPolynomialBlocks (kept ! i)
                             else kept ! i) [0..<length kept]
             in Returns (polynomialBlocksToText polynomialsDecryptedWithoutPadding (paramN P))))"

section \<open>Auxiliary notions for the statements\<close>

text \<open>
  The integer reading of \<open>symmetricValueModuloQ\<close>: the same comparisons, on the
  truncated remainder of two integers. It is related to the function above by
  \<open>symmetricValueModuloQ_centredInt\<close> and serves in the proofs only.
\<close>

definition centredInt :: "int \<Rightarrow> int \<Rightarrow> int" where
  "centredInt v m =
     (let r = (if v < 0 then - ((- v) mod m) else v mod m) in
      if r < 0 then (if r < - (m div 2) then r + m else r)
      else (if r > m div 2 then r - m else r))"

text \<open>
  The two steps that \<open>crystalsKyber_decryptMessage\<close> applies to the decrypted blocks,
  stated as the specification words them: a last block whose coefficients are all zero
  is dropped, and the padding is removed from the block that is then the last one.
\<close>

definition dropZeroFiller :: "Polynomial list \<Rightarrow> Polynomial list" where
  "dropZeroFiller blocks =
     (if list_all (\<lambda>c. c = 0) (last blocks) then butlast blocks else blocks)"

definition stripFinalPadding :: "Polynomial list \<Rightarrow> Polynomial list" where
  "stripFinalPadding blocks =
     (if blocks = [] then []
      else butlast blocks @ [removePaddingFromPolynomialBlocks (last blocks)])"

text \<open>
  Small parameter sets and a fixed random source, for evaluating the functions on
  concrete inputs.
\<close>

definition degreeOne :: KyberParameters where
  "degreeOne = \<lparr>paramQ = 3329, paramN = 1, paramK = 1, paramN1 = 2, paramN2 = 2\<rparr>"

definition degreeEight :: KyberParameters where
  "degreeEight = \<lparr>paramQ = 3329, paramN = 8, paramK = 1, paramN1 = 2, paramN2 = 2\<rparr>"


text \<open>
  The decoder as the specification words it: all coefficients are concatenated into one
  bit stream, every 8 consecutive bits of the stream form a byte (most significant bit
  first), and the bytes are mapped to characters. Bits that do not fill a last group of
  8 are left out.
\<close>

definition bitValued :: "real list \<Rightarrow> bool" where
  "bitValued cs = list_all (\<lambda>c. c = 0 \<or> c = 1) cs"

definition bitsValue :: "real list \<Rightarrow> int" where
  "bitsValue bits = foldl (\<lambda>byte c. 2 * byte + \<lfloor>c\<rfloor>) 0 bits"

function groupsOf8 :: "'a list \<Rightarrow> 'a list list" where
  "groupsOf8 xs = (if length xs < 8 then [] else take 8 xs # groupsOf8 (drop 8 xs))"
  by pat_completeness auto
termination
  by (relation "measure length") auto

declare groupsOf8.simps [simp del]

definition regroupedText :: "Polynomial list \<Rightarrow> string" where
  "regroupedText blocks = map (\<lambda>group. char_of (bitsValue group)) (groupsOf8 (concat blocks))"

text \<open>
  The bits of one character and of a text, most significant bit first: the bit sequence
  that the encoder is given.
\<close>

definition charBits :: "char \<Rightarrow> real list" where
  "charBits ch = map (bitOf (of_char ch)) [7, 6, 5, 4, 3, 2, 1, 0]"

definition textBits :: "string \<Rightarrow> real list" where
  "textBits message = concat (map charBits message)"

text \<open>The update of \<open>currentByte\<close> in \<open>blockBytes\<close>, named for the proofs.\<close>

definition shiftIn :: "int \<Rightarrow> real \<Rightarrow> int" where
  "shiftIn currentByte c = signed_take_bit 31 (push_bit 1 currentByte) OR toInt32 c"



section \<open>Centred remainders\<close>

lemma jsRemainder_of_int:
  assumes "0 < m"
  shows "jsRemainder (of_int v) (of_int m) = of_int (if v < 0 then - ((- v) mod m) else v mod m)"
proof (cases "v < 0")
  case True
  with assms have neg: "(of_int v :: real) / of_int m < 0"
    by (simp add: divide_neg_pos)
  have "\<lfloor>- ((of_int v :: real) / of_int m)\<rfloor> = (- v) div m"
    using floor_divide_of_int_eq [of "- v" m, where ?'a = real] by simp
  then have "jsTrunc (of_int v / of_int m) = - ((- v) div m)"
    using neg by (simp add: jsTrunc_def)
  then have "jsRemainder (of_int v) (of_int m) = of_int (v + m * ((- v) div m))"
    by (simp add: jsRemainder_def)
  also have "v + m * ((- v) div m) = - ((- v) mod m)"
    by (simp add: minus_div_mult_eq_mod [symmetric] algebra_simps)
  finally show ?thesis using True by simp
next
  case False
  with assms have nonneg: "\<not> (of_int v :: real) / of_int m < 0"
    by (simp add: not_less)
  have "jsTrunc (of_int v / of_int m) = v div m"
    using nonneg by (simp add: jsTrunc_def floor_divide_of_int_eq)
  then have "jsRemainder (of_int v) (of_int m) = of_int (v - m * (v div m))"
    by (simp add: jsRemainder_def)
  also have "v - m * (v div m) = v mod m"
    by (simp add: minus_mult_div_eq_mod)
  finally show ?thesis using False by simp
qed

lemma floor_half_of_int: "\<lfloor>(of_int m :: real) / 2\<rfloor> = m div 2"
  using floor_divide_of_int_eq [of m 2, where ?'a = real] by simp

lemma symmetricValueModuloQ_of_int:
  assumes "0 < m"
  shows "symmetricValueModuloQ (of_int v) (of_int m) =
     of_int (let r = (if v < 0 then - ((- v) mod m) else v mod m) in
             if r < 0 then (if r < - (m div 2) then r + m else r)
             else (if r > m div 2 then r - m else r))"
  unfolding symmetricValueModuloQ_def jsRemainder_of_int [OF assms] floor_half_of_int Let_def
  by (simp del: of_int_minus add: of_int_minus [symmetric])

lemma symmetricValueModuloQ_centredInt:
  "0 < m \<Longrightarrow> symmetricValueModuloQ (of_int v) (of_int m) = of_int (centredInt v m)"
  by (simp add: symmetricValueModuloQ_of_int centredInt_def)

lemma centredInt_range:
  assumes "0 < m"
  shows "- (m div 2) \<le> centredInt v m \<and> centredInt v m \<le> m div 2"
proof -
  define x y h where "x = v mod m" and "y = (- v) mod m" and "h = m div 2"
  have a: "0 \<le> x" "x < m" "0 \<le> y" "y < m"
    using assms by (simp_all add: x_def y_def)
  have b: "h * 2 \<le> m" "m \<le> h * 2 + 1"
    unfolding h_def by presburger+
  have "centredInt v m =
      (let r = (if v < 0 then - y else x) in
       if r < 0 then (if r < - h then r + m else r) else (if r > h then r - m else r))"
    unfolding centredInt_def x_def y_def h_def ..
  then show ?thesis
    unfolding h_def [symmetric] Let_def using a b by (auto split: if_splits)
qed

lemma centredInt_cong:
  assumes "0 < m"
  shows "m dvd (centredInt v m - v)"
proof -
  have a: "v mod m = v - m * (v div m)" "(- v) mod m = - v - m * ((- v) div m)"
    by (simp_all add: minus_mult_div_eq_mod)
  show ?thesis
    unfolding centredInt_def Let_def a by (auto simp: algebra_simps)
qed

lemma centredInt_id:
  assumes "0 < m" "- (m div 2) \<le> v" "v \<le> m div 2"
  shows "centredInt v m = v"
proof -
  have "\<bar>v\<bar> < m" using assms by linarith
  then have "v < 0 \<Longrightarrow> (- v) mod m = - v" "0 \<le> v \<Longrightarrow> v mod m = v"
    by simp_all
  then show ?thesis
    unfolding centredInt_def Let_def using assms by (auto split: if_splits)
qed


text \<open>
  C4. For every integer value and every positive integer modulus,
  \<open>symmetricValueModuloQ\<close> returns an integer congruent to the value modulo the
  modulus, in the closed symmetric range from \<open>- \<lfloor>modulus / 2\<rfloor>\<close> to
  \<open>\<lfloor>modulus / 2\<rfloor>\<close>, which is the raw (truncated) remainder with the modulus added
  or subtracted at most once. For an odd modulus that range lies within the half-open
  range from \<open>- modulus / 2\<close> (excluded) to \<open>modulus / 2\<close>.
\<close>

theorem symmetricValueModuloQ_centred:
  fixes a m :: int
  assumes "0 < m"
  shows "\<exists>r::int. symmetricValueModuloQ (of_int a) (of_int m) = of_int r
           \<and> m dvd (r - a) \<and> - (m div 2) \<le> r \<and> r \<le> m div 2
           \<and> (odd m \<longrightarrow> - (of_int m / 2) < (of_int r :: real) \<and> (of_int r :: real) \<le> of_int m / 2)
           \<and> (of_int r :: real) \<in> {jsRemainder (of_int a) (of_int m),
                  jsRemainder (of_int a) (of_int m) + of_int m,
                  jsRemainder (of_int a) (of_int m) - of_int m}"
proof (intro exI [of _ "centredInt a m"] conjI impI)
  show "symmetricValueModuloQ (of_int a) (of_int m) = of_int (centredInt a m)"
    using assms by (rule symmetricValueModuloQ_centredInt)
  show "m dvd (centredInt a m - a)"
    using assms by (rule centredInt_cong)
  show h: "- (m div 2) \<le> centredInt a m" "centredInt a m \<le> m div 2"
    using centredInt_range [OF assms] by simp_all
  { assume "odd m"
    then have "m = 2 * (m div 2) + 1" by presburger
    then have "- m < 2 * centredInt a m" "2 * centredInt a m \<le> m"
      using h by linarith+
    then have "(of_int (- m) :: real) < of_int (2 * centredInt a m)"
        "(of_int (2 * centredInt a m) :: real) \<le> of_int m"
      by (simp_all only: of_int_less_iff of_int_le_iff)
    then show "- (of_int m / 2) < (of_int (centredInt a m) :: real)"
        "(of_int (centredInt a m) :: real) \<le> of_int m / 2"
      by simp_all }
  have "(of_int (centredInt a m) :: real) = symmetricValueModuloQ (of_int a) (of_int m)"
    using assms by (simp add: symmetricValueModuloQ_centredInt)
  then show "(of_int (centredInt a m) :: real) \<in> {jsRemainder (of_int a) (of_int m),
                  jsRemainder (of_int a) (of_int m) + of_int m,
                  jsRemainder (of_int a) (of_int m) - of_int m}"
    by (simp add: symmetricValueModuloQ_def Let_def)
qed

text \<open>The theorem at the value \<open>-7000\<close> and the modulus \<open>3329\<close>.\<close>

theorem symmetricValueModuloQ_centred_witness:
  "(0::int) < 3329 \<and>
   (\<exists>r::int. symmetricValueModuloQ (of_int (- 7000)) (of_int 3329) = of_int r
           \<and> 3329 dvd (r - (- 7000)) \<and> - (3329 div 2) \<le> r \<and> r \<le> 3329 div 2
           \<and> (odd (3329::int) \<longrightarrow> - (of_int 3329 / 2) < (of_int r :: real) \<and> (of_int r :: real) \<le> of_int 3329 / 2)
           \<and> (of_int r :: real) \<in> {jsRemainder (of_int (- 7000)) (of_int 3329),
                  jsRemainder (of_int (- 7000)) (of_int 3329) + of_int 3329,
                  jsRemainder (of_int (- 7000)) (of_int 3329) - of_int 3329})"
proof
  show h: "(0::int) < 3329" by simp
  show "\<exists>r::int. symmetricValueModuloQ (of_int (- 7000)) (of_int 3329) = of_int r
           \<and> 3329 dvd (r - (- 7000)) \<and> - (3329 div 2) \<le> r \<and> r \<le> 3329 div 2
           \<and> (odd (3329::int) \<longrightarrow> - (of_int 3329 / 2) < (of_int r :: real) \<and> (of_int r :: real) \<le> of_int 3329 / 2)
           \<and> (of_int r :: real) \<in> {jsRemainder (of_int (- 7000)) (of_int 3329),
                  jsRemainder (of_int (- 7000)) (of_int 3329) + of_int 3329,
                  jsRemainder (of_int (- 7000)) (of_int 3329) - of_int 3329}"
    by (rule symmetricValueModuloQ_centred [OF h])
qed

text \<open>
  With an even modulus the lower end of the half-open range is reached: the value
  \<open>-2\<close> modulo \<open>4\<close> stays \<open>-2\<close>, which is not above \<open>- 4 / 2\<close>.
\<close>

theorem symmetricValueModuloQ_half_open_counterexample:
  "\<not> (- (4 / 2) < symmetricValueModuloQ (- 2) 4 \<and> symmetricValueModuloQ (- 2) 4 \<le> 4 / 2)"
  by (simp add: symmetricValueModuloQ_def jsRemainder_def jsTrunc_def Let_def)

section \<open>Reduction modulo the modulus polynomial\<close>

lemma divideLoop_short:
  "length cs < length f \<Longrightarrow> divideLoop cs f q = Some cs"
  by (subst divideLoop.simps) simp

lemma divideLoop_result_short:
  assumes "divideLoop cs f q = Some r"
  shows "length r < length f"
proof (rule divideLoop.raw_induct [where P = "\<lambda>cs f q r. length r < length f", OF _ assms])
  fix dl :: "real list \<Rightarrow> real list \<Rightarrow> real \<Rightarrow> real list option"
  fix cs f :: "real list" and q :: real and r :: "real list"
  assume IH: "\<And>cs f q r. dl cs f q = Some r \<Longrightarrow> length r < length f"
  assume eq: "(if length f \<le> length cs
      then if f \<noteq> [] \<and> last f = 0 then None
           else let degreeDiff = length cs - length f;
                    leadingCoeff = real_of_int \<lfloor>last cs / last f\<rfloor>;
                    lowered = fold (subtractStep f leadingCoeff q degreeDiff) [0..<length f] cs
                in dl (popTrailingZeros lowered) f q
      else Some cs) = Some r"
  show "length r < length f"
  proof (cases "length f \<le> length cs")
    case True
    with eq have "dl (popTrailingZeros (fold (subtractStep f (of_int \<lfloor>last cs / last f\<rfloor>) q
           (length cs - length f)) [0..<length f] cs)) f q = Some r"
      by (simp add: Let_def split: if_splits)
    then show ?thesis by (rule IH)
  next
    case False
    with eq show ?thesis by simp
  qed
qed

text \<open>
  C8. Reducing a ring element that is already reduced returns it unchanged: a
  coefficient sequence shorter than the modulus polynomial (its degree is below the
  degree of the modulus polynomial) is returned as it is, whatever its coefficients, and
  so is every result of a reduction.
\<close>

theorem dividePolynomials_reduced:
  "(length p < length f \<longrightarrow> dividePolynomials p f q = Returns p) \<and>
   (dividePolynomials x f q = Returns r \<longrightarrow> dividePolynomials r f q = Returns r)"
proof (intro conjI impI)
  assume "length p < length f"
  then show "dividePolynomials p f q = Returns p"
    by (simp add: dividePolynomials_def divideLoop_short)
next
  assume "dividePolynomials x f q = Returns r"
  then have "divideLoop x f q = Some r"
    by (simp add: dividePolynomials_def split: option.splits)
  then have "length r < length f" by (rule divideLoop_result_short)
  then show "dividePolynomials r f q = Returns r"
    by (simp add: dividePolynomials_def divideLoop_short)
qed


lemma divideLoop_eval1: "divideLoop [1, 2, 3, 4, 5] [1, 0, 1] 7 = Some [3, - 2]"
  by code_simp

theorem dividePolynomials_reduced_witness:
  "length [3, - 2 :: real] < length [1, 0, 1 :: real] \<and>
   dividePolynomials [3, - 2] [1, 0, 1] 7 = Returns [3, - 2] \<and>
   dividePolynomials [1, 2, 3, 4, 5] [1, 0, 1] 7 = Returns [3, - 2]"
proof -
  have a: "dividePolynomials [1, 2, 3, 4, 5] [1, 0, 1] 7 = Returns [3, - 2]"
    by (simp add: dividePolynomials_def divideLoop_eval1)
  from dividePolynomials_reduced [of "[3, - 2]" "[1, 0, 1]" 7 "[1, 2, 3, 4, 5]" "[3, - 2]"] a
  show ?thesis by simp
qed

section \<open>Outcomes\<close>

lemma andThen_Returns_iff:
  "andThen x f = Returns y \<longleftrightarrow> (\<exists>a. x = Returns a \<and> f a = Returns y)"
  by (cases x) simp_all

lemma mapOutcome_length:
  "mapOutcome f xs = Returns ys \<Longrightarrow> length ys = length xs"
proof (induction xs arbitrary: ys)
  case Nil
  then show ?case by simp
next
  case (Cons x xs)
  then show ?case by (auto simp: andThen_Returns_iff)
qed

section \<open>Dimension checks\<close>

text \<open>
  C5. The row count of a matrix is the length of the array and its column count the
  length of its first row, as the source reads them. \<open>addMatrices\<close> and
  \<open>subtractMatrices\<close> throw the dimension error whenever the row counts or the column
  counts of the operands differ, and \<open>multiplyMatrices\<close> whenever the column count of
  the first operand differs from the row count of the second. The outcome is the error
  alone: no matrix, complete or partial, is returned.
\<close>

theorem shape_mismatch_throws:
  "(length A \<noteq> length B \<or> (A \<noteq> [] \<and> length (A ! 0) \<noteq> length (B ! 0))
      \<longrightarrow> addMatrices A B moduloQ f = Throws ShapeMismatch
        \<and> subtractMatrices A B moduloQ f = Throws ShapeMismatch) \<and>
   (A \<noteq> [] \<and> length (A ! 0) \<noteq> length B
      \<longrightarrow> multiplyMatrices A B moduloQ f = Throws ShapeMismatch)"
  by (auto simp: addMatrices_def subtractMatrices_def multiplyMatrices_def)

text \<open>
  A \<open>2 \<times> 1\<close> matrix against a \<open>1 \<times> 1\<close> matrix for the sum and the difference, and
  against a \<open>3 \<times> 1\<close> matrix for the product.
\<close>

theorem shape_mismatch_throws_witness:
  "(length [[[1, 2]], [[3 :: real]]] \<noteq> length [[[1 :: real]]]) \<and>
   addMatrices [[[1, 2]], [[3]]] [[[1]]] 3329 (modulusPolynomial kyber1024)
     = Throws ShapeMismatch \<and>
   subtractMatrices [[[1, 2]], [[3]]] [[[1]]] 3329 (modulusPolynomial kyber1024)
     = Throws ShapeMismatch \<and>
   [[[1, 2]], [[3 :: real]]] \<noteq> [] \<and>
   length ([[[1, 2]], [[3 :: real]]] ! 0) \<noteq> length [[[1 :: real]], [[2]], [[3]]] \<and>
   multiplyMatrices [[[1, 2]], [[3]]] [[[1]], [[2]], [[3]]] 3329 (modulusPolynomial kyber1024)
     = Throws ShapeMismatch"
  using shape_mismatch_throws [of "[[[1, 2]], [[3]]]" "[[[1]]]" 3329 "modulusPolynomial kyber1024"]
    shape_mismatch_throws [of "[[[1, 2]], [[3]]]" "[[[1]], [[2]], [[3]]]" 3329
      "modulusPolynomial kyber1024"]
  by simp

section \<open>The scaling of the message\<close>


lemmas eval_defs =
  crystalsKyber_encrypt_def crystalsKyber_generateKeys_def crystalsKyber_decrypt_def
  generateRandomMatrix_def transposeMatrix_def multiplyMatrices_def addMatrices_def
  subtractMatrices_def dividePolynomials_def divideLoop.simps addCoefficients_def
  subtractCoefficients_def coefficientOrZero_def productCoefficients_def modulusPolynomial_def
  symmetricValueModuloQ_def jsRemainder_def jsTrunc_def msgScaled_def reduceToBinary_def
  Let_def upt_rec popTrailingZeros.simps subtractStep_def




section \<open>Message-level decryption\<close>

lemma allZeroes_list_all: "allZeroes cs = list_all (\<lambda>c. c = 0) cs"
  by (induction cs) auto

lemma map_index_last:
  "map (\<lambda>i. if i = length xs - Suc 0 then g (xs ! i) else xs ! i) [0..<length xs] =
     (if xs = [] then [] else butlast xs @ [g (last xs)])"
proof (cases xs rule: rev_cases)
  case Nil
  then show ?thesis by simp
next
  case (snoc ys y)
  have "map (\<lambda>i. if i = length ys then g ((ys @ [y]) ! i) else (ys @ [y]) ! i) [0..<length ys] = ys"
    by (rule nth_equalityI) (simp_all add: nth_append)
  then show ?thesis unfolding snoc by simp
qed

text \<open>
  C7. On a non-empty sequence of ciphertext blocks, message-level decryption decrypts
  every block on its own, with the same key and in order, and stops with the first
  block whose decryption throws or does not return. Otherwise the last decrypted block
  is dropped exactly when all its coefficients are zero, the padding is removed from
  the block that is then the last one, and the blocks before it reach the text decoder
  unchanged.
\<close>

theorem decryptMessage_structure:
  assumes "encryptedMsg \<noteq> []"
  shows "crystalsKyber_decryptMessage P encryptedMsg privateKey =
     andThen (mapOutcome (\<lambda>eb. crystalsKyber_decrypt P eb privateKey) encryptedMsg)
       (\<lambda>decrypted. Returns (polynomialBlocksToText
           (stripFinalPadding (dropZeroFiller decrypted)) (paramN P)))"
proof (cases "mapOutcome (\<lambda>eb. crystalsKyber_decrypt P eb privateKey) encryptedMsg")
  case (Returns decrypted)
  then have "length decrypted = length encryptedMsg" by (rule mapOutcome_length)
  with assms have ne: "decrypted \<noteq> []" by auto
  then have l: "decrypted ! (length decrypted - Suc 0) = last decrypted"
    by (simp add: last_conv_nth)
  show ?thesis
    unfolding crystalsKyber_decryptMessage_def Returns
    using ne by (simp add: Let_def l map_index_last allZeroes_list_all dropZeroFiller_def
        stripFinalPadding_def)
next
  case (Throws e)
  then show ?thesis by (simp add: crystalsKyber_decryptMessage_def)
next
  case Diverges
  then show ?thesis by (simp add: crystalsKyber_decryptMessage_def)
qed

lemma decrypt_degreeOne_first:
  "crystalsKyber_decrypt degreeOne \<lparr>ebU = [[[- 2]]], ebV = [[[- (3325 / 2)]]]\<rparr> \<lparr>skS = [[[3]]]\<rparr>
     = Returns [1]"
  by (simp add: eval_defs degreeOne_def)

lemma decrypt_degreeOne_second:
  "crystalsKyber_decrypt degreeOne \<lparr>ebU = [[[1]]], ebV = [[[4]]]\<rparr> \<lparr>skS = [[[3]]]\<rparr>
     = Returns [0]"
  by (simp add: eval_defs degreeOne_def)

text \<open>
  Two blocks under degree 1: they decrypt to \<open>[1]\<close> and \<open>[0]\<close>; the second is all
  zero and is dropped, and removing the padding from the first leaves an empty block.
\<close>

theorem decryptMessage_structure_witness:
  "[\<lparr>ebU = [[[- 2]]], ebV = [[[- (3325 / 2)]]]\<rparr>, \<lparr>ebU = [[[1]]], ebV = [[[4]]]\<rparr>] \<noteq> [] \<and>
   mapOutcome (\<lambda>eb. crystalsKyber_decrypt degreeOne eb \<lparr>skS = [[[3]]]\<rparr>)
     [\<lparr>ebU = [[[- 2]]], ebV = [[[- (3325 / 2)]]]\<rparr>, \<lparr>ebU = [[[1]]], ebV = [[[4]]]\<rparr>]
     = Returns [[1], [0]] \<and>
   dropZeroFiller [[1], [0]] = [[1]] \<and>
   stripFinalPadding [[1]] = [[]] \<and>
   crystalsKyber_decryptMessage degreeOne
     [\<lparr>ebU = [[[- 2]]], ebV = [[[- (3325 / 2)]]]\<rparr>, \<lparr>ebU = [[[1]]], ebV = [[[4]]]\<rparr>]
     \<lparr>skS = [[[3]]]\<rparr>
     = Returns (polynomialBlocksToText [[]] 1)"
proof -
  have ne: "[\<lparr>ebU = [[[- 2]]], ebV = [[[- (3325 / 2)]]]\<rparr>, \<lparr>ebU = [[[1]]], ebV = [[[4]]]\<rparr>] \<noteq> []"
    by simp
  have d: "dropZeroFiller [[1], [0]] = [[1]]"
    by (simp add: dropZeroFiller_def)
  have s: "stripFinalPadding [[1]] = [[]]"
    by (simp add: stripFinalPadding_def removePaddingFromPolynomialBlocks_def
        removePaddingLoop.simps)
  have n: "paramN degreeOne = 1"
    by (simp add: degreeOne_def)
  show ?thesis
    using decryptMessage_structure [OF ne, of degreeOne "\<lparr>skS = [[[3]]]\<rparr>"]
    by (simp add: decrypt_degreeOne_first decrypt_degreeOne_second d s n)
qed

section \<open>The text decoder\<close>

lemma blockBytes_prefix:
  "length ys + i mod 8 < 8 \<Longrightarrow>
   blockBytes (ys @ zs) i cb out = blockBytes zs (i + length ys) (foldl shiftIn cb ys) out"
proof (induction ys arbitrary: i cb)
  case Nil
  then show ?case by simp
next
  case (Cons y ys)
  from Cons.prems have "Suc (length ys) + i mod 8 < 8" by simp
  then have a: "(i + 1) mod 8 \<noteq> 0" "length ys + (Suc i) mod 8 < 8"
    by presburger+
  show ?case
    using a Cons.IH [of "Suc i" "shiftIn cb y"] by (simp add: Let_def shiftIn_def)
qed

lemma blockBytes_short:
  "length ys + i mod 8 < 8 \<Longrightarrow> blockBytes ys i cb out = out"
  using blockBytes_prefix [of ys i "[]" cb out] by simp

lemma blockBytes_group:
  assumes "length g = 8" "i mod 8 = 0"
  shows "blockBytes (g @ zs) i 0 out = blockBytes zs (i + 8) 0 (out @ [foldl shiftIn 0 g])"
proof -
  obtain ys c where g: "g = ys @ [c]" and l: "length ys = 7"
    using assms(1) by (cases g rule: rev_cases) auto
  have "blockBytes ((ys @ [c]) @ zs) i 0 out
      = blockBytes ([c] @ zs) (i + 7) (foldl shiftIn 0 ys) out"
    using blockBytes_prefix [of ys i "[c] @ zs" 0 out] l assms(2) by simp
  moreover have "(i + 7 + 1) mod 8 = 0" using assms(2) by presburger
  ultimately show ?thesis
    unfolding g by (simp add: Let_def shiftIn_def add.commute)
qed

lemma groupsOf8_short: "length xs < 8 \<Longrightarrow> groupsOf8 xs = []"
  by (subst groupsOf8.simps) simp

lemma groupsOf8_append_group:
  "length g = 8 \<Longrightarrow> groupsOf8 (g @ xs) = g # groupsOf8 xs"
  by (subst groupsOf8.simps) simp

lemma blockBytes_groups:
  "i mod 8 = 0 \<Longrightarrow> blockBytes xs i 0 out = out @ map (foldl shiftIn 0) (groupsOf8 xs)"
proof (induction "length xs" arbitrary: xs i out rule: less_induct)
  case less
  show ?case
  proof (cases "length xs < 8")
    case True
    with less.prems show ?thesis by (simp add: groupsOf8_short blockBytes_short)
  next
    case False
    define g zs where "g = take 8 xs" and "zs = drop 8 xs"
    with False have xs: "xs = g @ zs" and g: "length g = 8" and zs: "length zs < length xs"
      by simp_all
    have "(i + 8) mod 8 = 0" using less.prems by presburger
    with zs have "blockBytes zs (i + 8) 0 (out @ [foldl shiftIn 0 g])
        = (out @ [foldl shiftIn 0 g]) @ map (foldl shiftIn 0) (groupsOf8 zs)"
      by (rule less.hyps)
    then show ?thesis
      unfolding xs
      by (simp add: blockBytes_group [OF g less.prems] groupsOf8_append_group [OF g])
  qed
qed

lemma groupsOf8_append:
  "8 dvd length xs \<Longrightarrow> groupsOf8 (xs @ ys) = groupsOf8 xs @ groupsOf8 ys"
proof (induction "length xs" arbitrary: xs rule: less_induct)
  case less
  show ?case
  proof (cases "xs = []")
    case True
    then show ?thesis by (simp add: groupsOf8_short)
  next
    case False
    with less.prems have "8 \<le> length xs" by (simp add: dvd_imp_le)
    define g zs where "g = take 8 xs" and "zs = drop 8 xs"
    with \<open>8 \<le> length xs\<close> have xs: "xs = g @ zs" and g: "length g = 8"
      and zs: "length zs < length xs" "length zs = length xs - 8"
      by simp_all
    have "8 dvd length zs" using less.prems zs(2) by (simp add: dvd_diff_nat)
    with zs(1) have "groupsOf8 (zs @ ys) = groupsOf8 zs @ groupsOf8 ys" by (rule less.hyps)
    then show ?thesis
      unfolding xs by (simp add: groupsOf8_append_group [OF g])
  qed
qed

lemma toInt32_bit: "c = 0 \<or> c = 1 \<Longrightarrow> toInt32 c = \<lfloor>c\<rfloor>"
  by (auto simp: toInt32_def jsTrunc_def)

lemma shiftIn_bit:
  assumes "c = 0 \<or> c = 1" "0 \<le> b" "b < 2 ^ 30"
  shows "shiftIn b c = 2 * b + \<lfloor>c\<rfloor>"
proof -
  have "signed_take_bit 31 (push_bit 1 b) = 2 * b"
    using assms(2,3) by (simp add: signed_take_bit_int_eq_self push_bit_eq_mult)
  moreover have "2 * b OR 1 = 2 * b + 1"
    by (subst or_int_rec) simp
  ultimately show ?thesis
    using assms(1) by (auto simp: shiftIn_def toInt32_bit)
qed

lemma foldl_shiftIn_bits:
  "bitValued bits \<Longrightarrow> length bits \<le> 30 \<Longrightarrow>
     foldl shiftIn 0 bits = bitsValue bits \<and> 0 \<le> bitsValue bits \<and> bitsValue bits < 2 ^ length bits"
proof (induction bits rule: rev_induct)
  case Nil
  then show ?case by (simp add: bitsValue_def)
next
  case (snoc c bits)
  then have IH: "foldl shiftIn 0 bits = bitsValue bits" "0 \<le> bitsValue bits"
      "bitsValue bits < 2 ^ length bits"
    and c: "c = 0 \<or> c = 1" and l: "length bits < 30"
    by (simp_all add: bitValued_def)
  have "(2::int) ^ length bits \<le> 2 ^ 30"
    using l by (intro power_increasing) simp_all
  with IH(3) have b: "bitsValue bits < 2 ^ 30" by linarith
  have v: "bitsValue (bits @ [c]) = 2 * bitsValue bits + \<lfloor>c\<rfloor>"
    by (simp add: bitsValue_def)
  have "foldl shiftIn 0 (bits @ [c]) = 2 * bitsValue bits + \<lfloor>c\<rfloor>"
    using shiftIn_bit [OF c IH(2) b] IH(1) by simp
  moreover have "0 \<le> 2 * bitsValue bits + \<lfloor>c\<rfloor>" "2 * bitsValue bits + \<lfloor>c\<rfloor> < 2 * 2 ^ length bits"
    using c IH(2,3) by auto
  ultimately show ?case by (simp add: v)
qed

lemma bitValued_append [simp]: "bitValued (xs @ ys) \<longleftrightarrow> bitValued xs \<and> bitValued ys"
  by (simp add: bitValued_def)

lemma groupsOf8_props:
  "g \<in> set (groupsOf8 xs) \<Longrightarrow> length g = 8 \<and> set g \<subseteq> set xs"
proof (induction "length xs" arbitrary: xs rule: less_induct)
  case less
  show ?case
  proof (cases "length xs < 8")
    case True
    with less.prems show ?thesis by (simp add: groupsOf8_short)
  next
    case False
    with less.prems have "g = take 8 xs \<or> g \<in> set (groupsOf8 (drop 8 xs))"
      by (subst (asm) groupsOf8.simps) simp
    then show ?thesis
    proof
      assume "g = take 8 xs"
      with False show ?thesis by (auto dest: in_set_takeD)
    next
      assume a: "g \<in> set (groupsOf8 (drop 8 xs))"
      have "length (drop 8 xs) < length xs" using False by simp
      from less.hyps [OF this a] show ?thesis by (auto dest: in_set_dropD)
    qed
  qed
qed

lemma blockBytes_bits:
  assumes "bitValued xs"
  shows "blockBytes xs 0 0 out = out @ map bitsValue (groupsOf8 xs)"
proof -
  have "map (foldl shiftIn 0) (groupsOf8 xs) = map bitsValue (groupsOf8 xs)"
  proof (rule map_cong [OF refl])
    fix g assume "g \<in> set (groupsOf8 xs)"
    then have "length g = 8" "set g \<subseteq> set xs" by (auto dest: groupsOf8_props)
    with assms have "bitValued g" "length g \<le> 30"
      by (auto simp: bitValued_def list_all_iff)
    then show "foldl shiftIn 0 g = bitsValue g" by (simp add: foldl_shiftIn_bits)
  qed
  then show ?thesis by (simp add: blockBytes_groups)
qed

lemma fold_blockBytes:
  assumes "list_all bitValued blocks" "list_all (\<lambda>b. 8 dvd length b) (butlast blocks)"
  shows "fold (\<lambda>block textBytes. blockBytes block 0 0 textBytes) blocks out
           = out @ map bitsValue (groupsOf8 (concat blocks))"
  using assms
proof (induction blocks arbitrary: out)
  case Nil
  then show ?case by (simp add: groupsOf8_short)
next
  case (Cons b blocks)
  show ?case
  proof (cases "blocks = []")
    case True
    with Cons.prems show ?thesis by (simp add: blockBytes_bits)
  next
    case False
    with Cons.prems have b: "bitValued b" "8 dvd length b" and r: "list_all bitValued blocks"
      "list_all (\<lambda>b. 8 dvd length b) (butlast blocks)"
      by simp_all
    show ?thesis
      using Cons.IH [OF r] by (simp add: blockBytes_bits [OF b(1)] groupsOf8_append [OF b(2)])
  qed
qed

lemma polynomialBlocksToText_regrouped:
  assumes "list_all bitValued blocks" "list_all (\<lambda>b. 8 dvd length b) (butlast blocks)"
  shows "polynomialBlocksToText blocks blockSize = regroupedText blocks"
  by (simp add: polynomialBlocksToText_def regroupedText_def fold_blockBytes [OF assms])

text \<open>
  C6. For every sequence of bit-valued blocks in which every block but the last has a
  length that is a multiple of 8, \<open>polynomialBlocksToText\<close> is the function that
  concatenates all coefficients into one bit stream, regroups every 8 consecutive bits
  into a byte and maps the bytes to characters. The block size plays no part.
\<close>

theorem polynomialBlocksToText_regroups:
  assumes "list_all bitValued blocks" "list_all (\<lambda>b. 8 dvd length b) (butlast blocks)"
  shows "polynomialBlocksToText blocks blockSize = regroupedText blocks"
  using assms by (rule polynomialBlocksToText_regrouped)

text \<open>Two blocks of 16 and 10 bits: the text is \<open>abc\<close>, the last two bits are left out.\<close>

theorem polynomialBlocksToText_regroups_witness:
  "list_all bitValued [[0, 1, 1, 0, 0, 0, 0, 1, 0, 1, 1, 0, 0, 0, 1, 0], [0, 1, 1, 0, 0, 0, 1, 1, 1, 0]] \<and>
   list_all (\<lambda>b. 8 dvd length b)
     (butlast [[0, 1, 1, 0, 0, 0, 0, 1, 0, 1, 1, 0, 0, 0, 1, 0], [0, 1, 1, 0, 0, 0, 1, 1, 1, 0 :: real]]) \<and>
   polynomialBlocksToText
     [[0, 1, 1, 0, 0, 0, 0, 1, 0, 1, 1, 0, 0, 0, 1, 0], [0, 1, 1, 0, 0, 0, 1, 1, 1, 0]] 16
     = regroupedText [[0, 1, 1, 0, 0, 0, 0, 1, 0, 1, 1, 0, 0, 0, 1, 0], [0, 1, 1, 0, 0, 0, 1, 1, 1, 0]] \<and>
   polynomialBlocksToText
     [[0, 1, 1, 0, 0, 0, 0, 1, 0, 1, 1, 0, 0, 0, 1, 0], [0, 1, 1, 0, 0, 0, 1, 1, 1, 0]] 16
     = ''abc''"
proof -
  have a: "list_all bitValued
      [[0, 1, 1, 0, 0, 0, 0, 1, 0, 1, 1, 0, 0, 0, 1, 0], [0, 1, 1, 0, 0, 0, 1, 1, 1, 0]]"
    by (simp add: bitValued_def)
  have b: "list_all (\<lambda>b. 8 dvd length b)
     (butlast [[0, 1, 1, 0, 0, 0, 0, 1, 0, 1, 1, 0, 0, 0, 1, 0], [0, 1, 1, 0, 0, 0, 1, 1, 1, 0 :: real]])"
    by code_simp
  have c: "polynomialBlocksToText
     [[0, 1, 1, 0, 0, 0, 0, 1, 0, 1, 1, 0, 0, 0, 1, 0], [0, 1, 1, 0, 0, 0, 1, 1, 1, 0]] 16
     = ''abc''"
    by (simp add: polynomialBlocksToText_def toInt32_def jsTrunc_def Let_def char_of_def)
  from polynomialBlocksToText_regroups [OF a b, of 16] a b c show ?thesis by simp
qed

text \<open>
  Without the condition on the lengths the two differ: the source starts a new byte with
  every block and drops what is left of the previous one, so two blocks of 4 bits give
  no character, while their 8 bits together are one byte of the stream.
\<close>

lemma groupsOf8_eval8: "groupsOf8 [a, b, c, d, e, f, g, h] = [[a, b, c, d, e, f, g, h]]"
  using groupsOf8_append_group [of "[a, b, c, d, e, f, g, h]" "[]"]
  by (simp add: groupsOf8_short)

theorem polynomialBlocksToText_regroups_counterexample:
  "polynomialBlocksToText [[1, 0, 0, 0], [0, 0, 0, 0]] 4 \<noteq> regroupedText [[1, 0, 0, 0], [0, 0, 0, 0]]"
  by (simp add: polynomialBlocksToText_def regroupedText_def groupsOf8_eval8 bitsValue_def)

section \<open>The text encoder and the padding\<close>

lemma length_charBits [simp]: "length (charBits ch) = 8"
  by (simp add: charBits_def)

lemma length_textBits [simp]: "length (textBits message) = 8 * length message"
  by (induction message) (simp_all add: textBits_def)

lemma paddingBits: "map (bitOf 0x80) [7, 6, 5, 4, 3, 2, 1, 0] = 1 # replicate 7 0"
  by (simp add: bitOf_def numeral_eq_Suc)

text \<open>One byte of the text: a full block is closed first, then the eight bits follow.\<close>

lemma textByteStep_eq:
  assumes "8 dvd blockSize" "0 < blockSize" "8 dvd length cur" "length cur \<le> blockSize"
  shows "textByteStep blockSize byte (blocks, cur) =
     (if length cur = blockSize
      then (blocks @ [cur], map (bitOf byte) [7, 6, 5, 4, 3, 2, 1, 0])
      else (blocks, cur @ map (bitOf byte) [7, 6, 5, 4, 3, 2, 1, 0]))"
proof (cases "length cur = blockSize")
  case True
  from assms(1,2) have "8 \<le> blockSize" by (simp add: dvd_imp_le)
  then show ?thesis
    using True by (simp add: textByteStep_def)
next
  case False
  obtain a b where "blockSize = 8 * a" "length cur = 8 * b"
    using assms(1,3) by (auto elim!: dvdE)
  with False assms(4) have "length cur + 8 \<le> blockSize" by auto
  then show ?thesis
    using False by (simp add: textByteStep_def)
qed

text \<open>The state of the encoder after a text.\<close>

lemma fold_textByteStep:
  assumes "8 dvd blockSize" "0 < blockSize"
    and "8 dvd length cur" "length cur \<le> blockSize" "list_all (\<lambda>b. length b = blockSize) blocks"
    and "fold (textByteStep blockSize) (map of_char message) (blocks, cur) = (blocks', cur')"
  shows "8 dvd length cur' \<and> length cur' \<le> blockSize
      \<and> list_all (\<lambda>b. length b = blockSize) blocks'
      \<and> concat blocks' @ cur' = concat blocks @ cur @ textBits message"
  using assms(3-)
proof (induction message arbitrary: blocks cur)
  case Nil
  then show ?case by (simp add: textBits_def)
next
  case (Cons ch message)
  from assms(1,2) have 8: "8 \<le> blockSize" by (simp add: dvd_imp_le)
  show ?case
  proof (cases "length cur = blockSize")
    case True
    with Cons.prems have f: "fold (textByteStep blockSize) (map of_char message)
        (blocks @ [cur], charBits ch) = (blocks', cur')"
      by (simp add: textByteStep_eq [OF assms(1,2)] charBits_def)
    have "8 dvd length (charBits ch)" "length (charBits ch) \<le> blockSize"
        "list_all (\<lambda>b. length b = blockSize) (blocks @ [cur])"
      using 8 True Cons.prems(3) by simp_all
    from Cons.IH [OF this f] show ?thesis by (simp add: textBits_def)
  next
    case False
    with Cons.prems have f: "fold (textByteStep blockSize) (map of_char message)
        (blocks, cur @ charBits ch) = (blocks', cur')"
      by (simp add: textByteStep_eq [OF assms(1,2)] charBits_def)
    obtain a b where "blockSize = 8 * a" "length cur = 8 * b"
      using assms(1) Cons.prems(1) by (auto elim!: dvdE)
    with False Cons.prems(2) have "length cur + 8 \<le> blockSize" by auto
    then have "8 dvd length (cur @ charBits ch)" "length (cur @ charBits ch) \<le> blockSize"
      using Cons.prems(1) by simp_all
    from Cons.IH [OF this Cons.prems(3) f] show ?thesis by (simp add: textBits_def)
  qed
qed

lemma removePaddingLoop_zero: "removePaddingLoop (xs @ [0]) = removePaddingLoop xs"
  by (subst removePaddingLoop.simps) simp

lemma removePaddingLoop_zeros: "removePaddingLoop (xs @ replicate k 0) = removePaddingLoop xs"
proof (induction k)
  case 0
  then show ?case by simp
next
  case (Suc k)
  have "xs @ replicate (Suc k) 0 = (xs @ replicate k 0) @ [0]"
    by (simp add: replicate_append_same)
  then show ?case using Suc by (simp only: removePaddingLoop_zero)
qed

lemma removePaddingLoop_one: "removePaddingLoop (xs @ [1]) = xs"
  by (subst removePaddingLoop.simps) simp

lemma removePadding_marker:
  "removePaddingFromPolynomialBlocks (xs @ 1 # replicate k 0) = xs"
  using removePaddingLoop_zeros [of "xs @ [1]" k]
  by (simp add: removePaddingFromPolynomialBlocks_def removePaddingLoop_one)

lemma addPadding_cases:
  assumes "8 dvd blockSize" "0 < blockSize" "8 dvd length cur" "length cur \<le> blockSize"
  shows "addPaddingToPolynomialBlocks cur blockSize =
     (if length cur = blockSize then
        (if blockSize = 8 then [cur, 1 # replicate 7 0, replicate blockSize 0]
         else [cur, 1 # replicate 7 0 @ replicate (blockSize - 8) 0])
      else if length cur + 8 = blockSize then [cur @ 1 # replicate 7 0, replicate blockSize 0]
      else [cur @ 1 # replicate 7 0 @ replicate (blockSize - length cur - 8) 0])"
proof -
  from assms(1,2) have 8: "8 \<le> blockSize" by (simp add: dvd_imp_le)
  obtain a b where ab: "blockSize = 8 * a" "length cur = 8 * b"
    using assms(1,3) by (auto elim!: dvdE)
  show ?thesis
  proof (cases "length cur = blockSize")
    case True
    then show ?thesis
      using 8 unfolding addPaddingToPolynomialBlocks_def Let_def paddingBits by simp
  next
    case False
    with ab assms(4) have "length cur + 8 \<le> blockSize" by auto
    then show ?thesis
      using False unfolding addPaddingToPolynomialBlocks_def Let_def paddingBits by auto
  qed
qed

lemma encode_shape:
  assumes "8 dvd blockSize" "0 < blockSize"
  obtains blocks cur where
    "textToPolynomialBlocks message blockSize = blocks @ addPaddingToPolynomialBlocks cur blockSize"
    "list_all (\<lambda>b. length b = blockSize) blocks" "8 dvd length cur" "length cur \<le> blockSize"
    "concat blocks @ cur = textBits message"
proof -
  obtain blocks cur where f: "fold (textByteStep blockSize) (map of_char message) ([], []) = (blocks, cur)"
    by (cases "fold (textByteStep blockSize) (map of_char message) ([], [])") auto
  have "8 dvd length cur \<and> length cur \<le> blockSize
      \<and> list_all (\<lambda>b. length b = blockSize) blocks
      \<and> concat blocks @ cur = concat [] @ [] @ textBits message"
    by (rule fold_textByteStep [OF assms _ _ _ f]) simp_all
  moreover have "textToPolynomialBlocks message blockSize
      = blocks @ addPaddingToPolynomialBlocks cur blockSize"
    by (simp add: textToPolynomialBlocks_def f)
  ultimately show ?thesis using that by simp
qed

lemma length_concat_blocks:
  "list_all (\<lambda>b. length b = n) blocks \<Longrightarrow> length (concat blocks) = n * length blocks"
  by (induction blocks) simp_all

lemma all_zero_replicate [simp]: "list_all (\<lambda>c. c = 0) (replicate k (0::real))"
  by (simp add: list_all_iff)

lemma not_all_zero_marker [simp]: "\<not> list_all (\<lambda>c. c = 0) (xs @ (1::real) # ys)"
  by simp

lemma bitValued_concat: "bitValued (concat blocks) \<longleftrightarrow> list_all bitValued blocks"
  by (induction blocks) (simp_all add: bitValued_def)

lemma bitOf_bit: "bitOf byte k = 0 \<or> bitOf byte k = 1"
  by (simp add: bitOf_def and_one_eq) presburger

lemma bitValued_textBits: "bitValued (textBits message)"
  by (induction message) (simp_all add: textBits_def charBits_def bitValued_def bitOf_bit)

lemma strip_snoc_marker:
  "stripFinalPadding (xs @ [ys @ 1 # replicate k 0]) = xs @ [ys]"
  by (simp add: stripFinalPadding_def removePadding_marker)

lemma drop_snoc_zeros: "dropZeroFiller (xs @ [replicate k 0]) = xs"
  by (simp add: dropZeroFiller_def)

lemma drop_snoc_marker: "dropZeroFiller (xs @ [ys @ 1 # zs]) = xs @ [ys @ 1 # zs]"
  by (simp add: dropZeroFiller_def)

lemma marker_zeros: "(1::real) # replicate 7 0 @ replicate m 0 = 1 # replicate (7 + m) 0"
  by (simp add: replicate_add)

lemma encode_strip:
  fixes message :: string and blockSize :: nat
  assumes "8 dvd blockSize" "0 < blockSize"
  defines "bs \<equiv> textToPolynomialBlocks message blockSize"
  shows "concat (stripFinalPadding (dropZeroFiller bs)) = textBits message"
    and "list_all (\<lambda>b. 8 dvd length b) (butlast (stripFinalPadding (dropZeroFiller bs)))"
    and "list_all bitValued (stripFinalPadding (dropZeroFiller bs))"
    and "length (textBits message) mod blockSize \<noteq> blockSize - 8 \<Longrightarrow> dropZeroFiller bs = bs"
    and "bs \<noteq> []" and "list_all (\<lambda>b. length b = blockSize) bs"
proof -
  obtain blocks cur where bs: "bs = blocks @ addPaddingToPolynomialBlocks cur blockSize"
    and blocks: "list_all (\<lambda>b. length b = blockSize) blocks"
    and cur: "8 dvd length cur" "length cur \<le> blockSize"
    and bits: "concat blocks @ cur = textBits message"
    unfolding bs_def by (rule encode_shape [OF assms(1,2)])
  from assms(1,2) have 8: "8 \<le> blockSize" by (simp add: dvd_imp_le)
  have d: "list_all (\<lambda>b. 8 dvd length b) blocks"
    using blocks assms(1) by (simp add: list_all_iff)
  have "bitValued (concat blocks @ cur)"
    unfolding bits by (rule bitValued_textBits)
  then have bv: "list_all bitValued blocks" "bitValued cur"
    by (simp_all add: bitValued_concat)
  have len: "length (textBits message) = blockSize * length blocks + length cur"
    unfolding bits [symmetric] by (simp add: length_concat_blocks [OF blocks])
  note pad = addPadding_cases [OF assms(1,2) cur]
  consider (full8) "length cur = blockSize" "blockSize = 8"
    | (full) "length cur = blockSize" "blockSize \<noteq> 8"
    | (exact) "length cur \<noteq> blockSize" "length cur + 8 = blockSize"
    | (room) "length cur \<noteq> blockSize" "length cur + 8 \<noteq> blockSize"
    by blast
  then have "concat (stripFinalPadding (dropZeroFiller bs)) = textBits message
    \<and> list_all (\<lambda>b. 8 dvd length b) (butlast (stripFinalPadding (dropZeroFiller bs)))
    \<and> list_all bitValued (stripFinalPadding (dropZeroFiller bs))
    \<and> (length (textBits message) mod blockSize \<noteq> blockSize - 8 \<longrightarrow> dropZeroFiller bs = bs)
    \<and> bs \<noteq> [] \<and> list_all (\<lambda>b. length b = blockSize) bs"
  proof cases
    case full8
    have b: "bs = (blocks @ [cur, [] @ 1 # replicate 7 0]) @ [replicate blockSize 0]"
      using pad full8 by (simp add: bs)
    have dz: "dropZeroFiller bs = (blocks @ [cur]) @ [[] @ 1 # replicate 7 0]"
      unfolding b drop_snoc_zeros by simp
    have st: "stripFinalPadding (dropZeroFiller bs) = blocks @ [cur, []]"
      unfolding dz strip_snoc_marker by simp
    have m: "length (textBits message) mod blockSize = blockSize - 8"
      using full8 len by simp
    show ?thesis
      unfolding st using bits d bv blocks full8 cur m
      by (simp add: b butlast_append bitValued_def)
  next
    case full
    have b: "bs = (blocks @ [cur]) @ [[] @ 1 # replicate (7 + (blockSize - 8)) 0]"
      using pad full by (simp add: bs marker_zeros)
    have dz: "dropZeroFiller bs = bs"
      unfolding b by (rule drop_snoc_marker)
    have st: "stripFinalPadding (dropZeroFiller bs) = blocks @ [cur, []]"
      unfolding dz unfolding b strip_snoc_marker by simp
    show ?thesis
      unfolding st using bits d bv blocks full cur 8 dz
      by (simp add: b butlast_append bitValued_def)
  next
    case exact
    have b: "bs = (blocks @ [cur @ 1 # replicate 7 0]) @ [replicate blockSize 0]"
      using pad exact by (simp add: bs)
    have dz: "dropZeroFiller bs = blocks @ [cur @ 1 # replicate 7 0]"
      unfolding b by (rule drop_snoc_zeros)
    have st: "stripFinalPadding (dropZeroFiller bs) = blocks @ [cur]"
      unfolding dz by (rule strip_snoc_marker)
    have m: "length (textBits message) mod blockSize = blockSize - 8"
      using exact len by simp
    show ?thesis
      unfolding st using bits d bv blocks exact cur m
      by (simp add: b butlast_append bitValued_def)
  next
    case room
    obtain a c where ab: "blockSize = 8 * a" "length cur = 8 * c"
      using assms(1) cur(1) by (auto elim!: dvdE)
    with room cur(2) have lt: "length cur + 8 < blockSize" by auto
    have b: "bs = blocks @ [cur @ 1 # replicate (7 + (blockSize - length cur - 8)) 0]"
      using pad room by (simp add: bs marker_zeros)
    have dz: "dropZeroFiller bs = bs"
      unfolding b by (rule drop_snoc_marker)
    have st: "stripFinalPadding (dropZeroFiller bs) = blocks @ [cur]"
      unfolding dz unfolding b by (rule strip_snoc_marker)
    show ?thesis
      unfolding st using bits d bv blocks room cur lt dz
      by (simp add: b butlast_append bitValued_def)
  qed
  then show "concat (stripFinalPadding (dropZeroFiller bs)) = textBits message"
    and "list_all (\<lambda>b. 8 dvd length b) (butlast (stripFinalPadding (dropZeroFiller bs)))"
    and "list_all bitValued (stripFinalPadding (dropZeroFiller bs))"
    and "length (textBits message) mod blockSize \<noteq> blockSize - 8 \<Longrightarrow> dropZeroFiller bs = bs"
    and "bs \<noteq> []" and "list_all (\<lambda>b. length b = blockSize) bs"
    by simp_all
qed

lemma bitsValue_byte:
  fixes x :: int
  assumes "0 \<le> x" "x < 256"
  shows "bitsValue (map (bitOf x) [7, 6, 5, 4, 3, 2, 1, 0]) = x"
proof -
  define d where "d k = x div 2 ^ k" for k :: nat
  have b: "bitOf x k = of_int (d k mod 2)" for k
    by (simp add: bitOf_def and_one_eq drop_bit_eq_div d_def)
  have "d (Suc k) = d k div 2" for k
    using zdiv_zmult2_eq [of 2 x "2 ^ k"] zdiv_zmult2_eq [of "2 ^ k" x 2]
    by (simp add: d_def mult.commute)
  then have m: "d k mod 2 = d k - 2 * d (Suc k)" for k
    by (simp add: minus_mult_div_eq_mod)
  have d0: "d 0 = x" by (simp add: d_def)
  have d8: "d 8 = 0" using assms by (simp add: d_def)
  have "bitsValue (map (bitOf x) [7, 6, 5, 4, 3, 2, 1, 0]) =
    2 * (2 * (2 * (2 * (2 * (2 * (2 * (d 7 mod 2) + d 6 mod 2) + d 5 mod 2)
      + d 4 mod 2) + d 3 mod 2) + d 2 mod 2) + d 1 mod 2) + d 0 mod 2"
    by (simp add: bitsValue_def b)
  also have "\<dots> = d 0 - 256 * d 8"
    unfolding m by (simp add: eval_nat_numeral)
  finally show ?thesis by (simp add: d0 d8)
qed

lemma of_char_int_bounds: "0 \<le> (of_char ch :: int) \<and> (of_char ch :: int) < 256"
proof -
  have "(of_char ch :: int) = int (of_char ch)"
    by (simp add: of_char_def)
  then show ?thesis using nat_of_char_less_256 [of ch] by simp
qed

lemma bitsValue_charBits: "bitsValue (charBits ch) = of_char ch"
  unfolding charBits_def using of_char_int_bounds [of ch] by (intro bitsValue_byte) simp_all

lemma groupsOf8_textBits: "groupsOf8 (textBits message) = map charBits message"
proof (induction message)
  case Nil
  then show ?case by (simp add: textBits_def groupsOf8_short)
next
  case (Cons ch message)
  have "textBits (ch # message) = charBits ch @ textBits message"
    by (simp add: textBits_def)
  then show ?case
    using Cons by (simp add: groupsOf8_append_group)
qed

lemma regroupedText_textBits:
  "concat blocks = textBits message \<Longrightarrow> regroupedText blocks = message"
  by (simp add: regroupedText_def groupsOf8_textBits bitsValue_charBits comp_def map_idI)

lemma decode_encode:
  assumes "8 dvd blockSize" "0 < blockSize"
  shows "polynomialBlocksToText
     (stripFinalPadding (dropZeroFiller (textToPolynomialBlocks message blockSize))) anySize
       = message"
  using encode_strip(1-3) [OF assms, of message]
  by (simp add: polynomialBlocksToText_regrouped regroupedText_textBits)


lemmas codec_defs =
  textToPolynomialBlocks_def textByteStep_def addPaddingToPolynomialBlocks_def bitOf_def
  textBits_def charBits_def Let_def eval_nat_numeral




lemma textBits_ab: "textBits ''ab'' = [0, 1, 1, 0, 0, 0, 0, 1, 0, 1, 1, 0, 0, 0, 1, 0]"
  by (simp add: codec_defs)



section \<open>Addition and subtraction of ring elements\<close>

lemma length_modulusPolynomial [simp]: "length (modulusPolynomial P) = paramN P + 1"
  unfolding modulusPolynomial_def by (simp only: length_list_update length_replicate)


lemma length_addCoefficients [simp]:
  "length (addCoefficients a b q) = max (length a) (length b)"
  by (simp add: addCoefficients_def)

lemma length_subtractCoefficients [simp]:
  "length (subtractCoefficients a b q) = max (length a) (length b)"
  by (simp add: subtractCoefficients_def)










end
